theory Spec2Isabelle
  imports Main
begin

section \<open>Python strings and integers\<close>

text \<open>
  A Python \<open>str\<close> is modelled as a \<^typ>\<open>string\<close> whose characters are the code points
  below 256. The built-in operations used by \<^verbatim>\<open>pdf-merge.py\<close> are written out for
  that range: \<^verbatim>\<open>str.strip()\<close> removes the characters for which \<^verbatim>\<open>str.isspace\<close> holds,
  \<^verbatim>\<open>int(s)\<close> removes a smaller set (it keeps the separators 0x1C to 0x1F), accepts one
  sign and then decimal digits with single underscores between digits. The
  interpreter's cap on the length of a decimal literal (\<^verbatim>\<open>sys.int_max_str_digits\<close>) is
  taken as switched off.
\<close>

definition is_space :: "char \<Rightarrow> bool" where
  "is_space c =
     (let n = (of_char c :: nat)
      in (9 \<le> n \<and> n \<le> 13) \<or> (28 \<le> n \<and> n \<le> 32) \<or> n = 133 \<or> n = 160)"

definition is_int_space :: "char \<Rightarrow> bool" where
  "is_int_space c =
     (let n = (of_char c :: nat)
      in (9 \<le> n \<and> n \<le> 13) \<or> n = 32 \<or> n = 133 \<or> n = 160)"

definition strip_with :: "(char \<Rightarrow> bool) \<Rightarrow> string \<Rightarrow> string" where
  "strip_with sp s = rev (dropWhile sp (rev (dropWhile sp s)))"

definition strip :: "string \<Rightarrow> string" where
  "strip s = strip_with is_space s"

definition is_digit :: "char \<Rightarrow> bool" where
  "is_digit c = (let n = (of_char c :: nat) in 48 \<le> n \<and> n \<le> 57)"

definition digit_val :: "char \<Rightarrow> nat" where
  "digit_val c = of_char c - 48"

fun digits_acc :: "nat \<Rightarrow> string \<Rightarrow> nat option" where
  "digits_acc n [] = Some n"
| "digits_acc n (c # cs) =
     (if is_digit c then digits_acc (10 * n + digit_val c) cs
      else if c = CHR ''_'' then
        (case cs of
           [] \<Rightarrow> None
         | d # ds \<Rightarrow> if is_digit d then digits_acc n cs else None)
      else None)"

fun digits_value :: "string \<Rightarrow> nat option" where
  "digits_value [] = None"
| "digits_value (c # cs) = (if is_digit c then digits_acc (digit_val c) cs else None)"

text \<open>\<^verbatim>\<open>int(s)\<close>: \<open>None\<close> stands for the \<^verbatim>\<open>ValueError\<close>.\<close>

definition py_int :: "string \<Rightarrow> int option" where
  "py_int s =
     (case strip_with is_int_space s of
        [] \<Rightarrow> None
      | c # cs \<Rightarrow>
          if c = CHR ''+'' then map_option int (digits_value cs)
          else if c = CHR ''-'' then map_option (\<lambda>n. - int n) (digits_value cs)
          else map_option int (digits_value (c # cs)))"

text \<open>\<^verbatim>\<open>str(n)\<close> for an integer, as an f-string field or \<^verbatim>\<open>str.format\<close> renders it.\<close>

definition digit_char :: "nat \<Rightarrow> char" where
  "digit_char n = char_of (48 + n)"

fun str_nat :: "nat \<Rightarrow> string" where
  "str_nat n = (if n < 10 then [digit_char n] else str_nat (n div 10) @ [digit_char (n mod 10)])"

declare str_nat.simps [simp del]

definition str_int :: "int \<Rightarrow> string" where
  "str_int i = (if i < 0 then CHR ''-'' # str_nat (nat (- i)) else str_nat (nat i))"

text \<open>\<^verbatim>\<open>s.split(sep)\<close> for a one-character separator: always at least one piece.\<close>

fun split_char :: "char \<Rightarrow> string \<Rightarrow> string list" where
  "split_char sep [] = [] # []"
| "split_char sep (c # cs) =
     (if c = sep then [] # split_char sep cs
      else (case split_char sep cs of
              [] \<Rightarrow> [c] # []
            | p # ps \<Rightarrow> (c # p) # ps))"

text \<open>\<^verbatim>\<open>s.split(sep, 1)\<close> on a string that contains the separator.\<close>

definition split_first :: "char \<Rightarrow> string \<Rightarrow> string \<times> string" where
  "split_first sep s = (takeWhile (\<lambda>c. c \<noteq> sep) s, tl (dropWhile (\<lambda>c. c \<noteq> sep) s))"

definition startswith :: "string \<Rightarrow> char \<Rightarrow> bool" where
  "startswith s c = (case s of [] \<Rightarrow> False | d # _ \<Rightarrow> d = c)"

definition endswith :: "string \<Rightarrow> char \<Rightarrow> bool" where
  "endswith s c = (case rev s of [] \<Rightarrow> False | d # _ \<Rightarrow> d = c)"

text \<open>\<^verbatim>\<open>sep.join(xs)\<close>.\<close>

fun join :: "string \<Rightarrow> string list \<Rightarrow> string" where
  "join sep [] = []"
| "join sep [x] = x"
| "join sep (x # y # ys) = x @ sep @ join sep (y # ys)"


section \<open>Failures\<close>

text \<open>
  The program signals every failure it detects itself through \<^verbatim>\<open>err\<close> (or the same two
  statements written inline): the message goes to the error stream and the process ends
  with \<^verbatim>\<open>sys.exit(code)\<close>. An exception that no handler of the program catches ends the
  process with a traceback instead. \<open>Unmodelled\<close> marks the format fields that are
  outside the part of \<^verbatim>\<open>str.format\<close> embedded below.
\<close>

datatype exn =
    FileNotFoundError string
  | KeyError string
  | IndexError
  | ValueError

datatype failure =
    SystemExit string nat
  | Uncaught exn
  | Unmodelled

definition err :: "string \<Rightarrow> failure + 'a" where
  "err msg = Inl (SystemExit msg 2)"


section \<open>The range parser\<close>

definition tokens_of :: "string \<Rightarrow> string list" where
  "tokens_of spec = filter (\<lambda>t. t \<noteq> []) (map strip (split_char CHR '','' spec))"

definition invalid_token :: "string \<Rightarrow> string" where
  "invalid_token tok = ''Invalid range token: '' @ [CHR 0x27] @ tok @ [CHR 0x27]"

definition not_positive :: "string \<Rightarrow> string" where
  "not_positive tok = ''Range must be positive: '' @ [CHR 0x27] @ tok @ [CHR 0x27]"

definition start_gt_end :: "string \<Rightarrow> string" where
  "start_gt_end tok = ''Range start > end: '' @ [CHR 0x27] @ tok @ [CHR 0x27]"

definition out_of_bounds :: "int \<Rightarrow> string \<Rightarrow> string" where
  "out_of_bounds total_pages tok =
     ''Range out of bounds for file with '' @ str_int total_pages @ '' pages: '' @ tok"

definition empty_spec :: string where
  "empty_spec = ''No pages matched ranges: (empty spec)''"

text \<open>
  The first half of the loop body: the branch on the shape of the token that assigns
  \<^verbatim>\<open>start\<close> and \<^verbatim>\<open>end\<close>. Each \<^verbatim>\<open>try\<close> block has the same handler for
  \<^verbatim>\<open>ValueError\<close>.
\<close>

definition token_bounds :: "string \<Rightarrow> int \<Rightarrow> failure + (int \<times> int)" where
  "token_bounds tok total_pages =
     (if tok = ''-'' then err (invalid_token ''-'')
      else if CHR ''-'' \<in> set tok then
        (if startswith tok CHR ''-'' then
           (case py_int (tl tok) of
              None \<Rightarrow> err (invalid_token tok)
            | Some e \<Rightarrow> Inr (1, e))
         else if endswith tok CHR ''-'' then
           (case py_int (butlast tok) of
              None \<Rightarrow> err (invalid_token tok)
            | Some s \<Rightarrow> Inr (s, total_pages))
         else
           (case split_first CHR ''-'' tok of
              (a, b) \<Rightarrow>
                (case py_int a of
                   None \<Rightarrow> err (invalid_token tok)
                 | Some s \<Rightarrow>
                     (case py_int b of
                        None \<Rightarrow> err (invalid_token tok)
                      | Some e \<Rightarrow> Inr (s, e)))))
      else
        (case py_int tok of
           None \<Rightarrow> err (invalid_token tok)
         | Some n \<Rightarrow> Inr (n, n)))"

text \<open>The whole loop body: the bounds, then the three range checks in the source's order.\<close>

definition parse_token :: "string \<Rightarrow> int \<Rightarrow> failure + (int \<times> int)" where
  "parse_token tok total_pages =
     (case token_bounds tok total_pages of
        Inl e \<Rightarrow> Inl e
      | Inr (start, end) \<Rightarrow>
          if start \<le> 0 \<or> end \<le> 0 then err (not_positive tok)
          else if start > end then err (start_gt_end tok)
          else if start > total_pages \<or> end > total_pages then
            err (out_of_bounds total_pages tok)
          else Inr (start, end))"

text \<open>The \<^verbatim>\<open>for\<close> loop, with \<^verbatim>\<open>result\<close> as accumulator.\<close>

fun parse_loop :: "string list \<Rightarrow> int \<Rightarrow> (int \<times> int) list \<Rightarrow> failure + (int \<times> int) list" where
  "parse_loop [] total_pages result = Inr result"
| "parse_loop (tok # toks) total_pages result =
     (case parse_token tok total_pages of
        Inl e \<Rightarrow> Inl e
      | Inr r \<Rightarrow> parse_loop toks total_pages (result @ [r]))"

definition parse_ranges :: "string \<Rightarrow> int \<Rightarrow> failure + (int \<times> int) list" where
  "parse_ranges spec total_pages =
     (let tokens = tokens_of spec
      in if tokens = [] then err empty_spec
         else (case parse_loop tokens total_pages [] of
                 Inl e \<Rightarrow> Inl e
               | Inr result \<Rightarrow>
                   if result = [] then err (''No pages matched ranges: '' @ spec)
                   else Inr result))"


section \<open>Names of split segments\<close>

text \<open>
  \<^verbatim>\<open>pattern.format(base=..., page=..., start=..., end=...)\<close>. The embedding covers literal
  text, the escapes \<^verbatim>\<open>{{\<close> and \<^verbatim>\<open>}}\<close>, and replacement fields that are a plain name. A
  field with a conversion (\<^verbatim>\<open>!\<close>), a format specification (\<^verbatim>\<open>:\<close>), an attribute (\<^verbatim>\<open>.\<close>) or
  an index (\<^verbatim>\<open>[\<close>) is \<open>Unmodelled\<close>. No positional argument is passed, so an empty or
  numeric field name raises, as every name outside the four keywords does.
\<close>

datatype pyval = PyStr string | PyInt int | PyNone

definition py_str :: "pyval \<Rightarrow> string" where
  "py_str v = (case v of PyStr s \<Rightarrow> s | PyInt i \<Rightarrow> str_int i | PyNone \<Rightarrow> ''None'')"

definition get_field :: "(string \<times> pyval) list \<Rightarrow> string \<Rightarrow> failure + string" where
  "get_field kwargs field =
     (if CHR ''{'' \<in> set (takeWhile (\<lambda>c. c \<noteq> CHR ''!'' \<and> c \<noteq> CHR '':'') field)
        then Inl (Uncaught ValueError)
      else if list_ex (\<lambda>c. c \<in> set ''!:.['') field then Inl Unmodelled
      else if list_all is_digit field then
        (if foldl (\<lambda>a c. 10 * a + int (digit_val c)) 0 field \<le> 9223372036854775807
           then Inl (Uncaught IndexError)
         else Inl (Uncaught ValueError))
      else (case map_of kwargs field of
              None \<Rightarrow> Inl (Uncaught (KeyError field))
            | Some v \<Rightarrow> Inr (py_str v)))"

text \<open>Putting text in front of what the rest of the pattern yields, unless that raised.\<close>

definition prepend :: "string \<Rightarrow> failure + string \<Rightarrow> failure + string" where
  "prepend s r = (case r of Inl e \<Rightarrow> Inl e | Inr t \<Rightarrow> Inr (s @ t))"

fun format_scan :: "(string \<times> pyval) list \<Rightarrow> string \<Rightarrow> failure + string"
  and format_field :: "(string \<times> pyval) list \<Rightarrow> string \<Rightarrow> string \<Rightarrow> failure + string" where
  "format_scan kwargs [] = Inr []"
| "format_scan kwargs (c # cs) =
     (if c = CHR ''{'' then
        (case cs of
           [] \<Rightarrow> Inl (Uncaught ValueError)
         | d # ds \<Rightarrow>
             if d = CHR ''{'' then prepend ''{'' (format_scan kwargs ds)
             else format_field kwargs [] cs)
      else if c = CHR ''}'' then
        (case cs of
           [] \<Rightarrow> Inl (Uncaught ValueError)
         | d # ds \<Rightarrow>
             if d = CHR ''}'' then prepend ''}'' (format_scan kwargs ds)
             else Inl (Uncaught ValueError))
      else prepend [c] (format_scan kwargs cs))"
| "format_field kwargs acc [] = Inl (Uncaught ValueError)"
| "format_field kwargs acc (c # cs) =
     (if c = CHR ''}'' then
        (case get_field kwargs (rev acc) of
           Inl e \<Rightarrow> Inl e
         | Inr s \<Rightarrow> prepend s (format_scan kwargs cs))
      else format_field kwargs (c # acc) cs)"

text \<open>The keyword arguments of the call in \<^verbatim>\<open>make_split_name\<close>.\<close>

definition name_kwargs :: "string \<Rightarrow> int \<Rightarrow> int \<Rightarrow> (string \<times> pyval) list" where
  "name_kwargs base start end =
     [(''base'', PyStr base),
      (''page'', if start = end then PyInt start else PyNone),
      (''start'', PyInt start),
      (''end'', PyInt end)]"

definition make_split_name :: "string \<Rightarrow> int \<Rightarrow> int \<Rightarrow> string option \<Rightarrow> failure + string" where
  "make_split_name base start end pattern =
     (let default =
        (if start = end then Inr (base @ ''_p'' @ str_int start @ ''.pdf'')
         else Inr (base @ ''_p'' @ str_int start @ ''-'' @ str_int end @ ''.pdf''))
      in case pattern of
           None \<Rightarrow> default
         | Some pat \<Rightarrow>
             if pat \<noteq> [] then
               format_scan (name_kwargs base start end) pat
             else default)"


section \<open>Documents, the file system and paths\<close>

text \<open>
  The PDF library is a black box for the program. A document is modelled by what
  the program reads from it: its pages in native order, its metadata (\<open>None\<close> when the
  document has none), and its encryption (\<open>None\<close> when it is not encrypted, otherwise
  the passwords that open it). Pages are values of an arbitrary type.

  A metadata value is an object of the library: a text string, the PDF null object
  \<open>NullObject\<close>, or any other object, given by the text that \<^verbatim>\<open>str\<close> yields for it. The
  reader never hands over Python's \<^verbatim>\<open>None\<close>; \<open>NoneValue\<close> stands for it, since the
  program tests for it. \<^verbatim>\<open>str\<close> of the null object is its name.

  A writer collects the pages added to it and its metadata. A new writer already
  holds the entry \<open>/Producer\<close> of the library; \<^verbatim>\<open>add_metadata\<close> updates the entries with
  the ones passed, and every value of a written document is a text string.
\<close>

datatype md_value = NoneValue | NullObject | TextString string | OtherObject string

definition str_value :: "md_value \<Rightarrow> string" where
  "str_value v =
     (case v of
        NoneValue \<Rightarrow> ''None''
      | NullObject \<Rightarrow> ''NullObject''
      | TextString s \<Rightarrow> s
      | OtherObject s \<Rightarrow> s)"

record 'a document =
  pages :: "'a list"
  metadata :: "(string \<times> md_value) list option"
  encryption :: "string list option"

record 'a writer =
  w_pages :: "'a list"
  w_metadata :: "(string \<times> string) list"

definition PdfWriter :: "'a writer" where
  "PdfWriter = \<lparr>w_pages = [], w_metadata = [(''/Producer'', ''pypdf'')]\<rparr>"

definition add_page :: "'a \<Rightarrow> 'a writer \<Rightarrow> 'a writer" where
  "add_page page w = w\<lparr>w_pages := w_pages w @ [page]\<rparr>"

text \<open>\<^verbatim>\<open>d[k] = v\<close> on a dictionary kept in insertion order.\<close>

fun dict_set :: "'k \<Rightarrow> 'v \<Rightarrow> ('k \<times> 'v) list \<Rightarrow> ('k \<times> 'v) list" where
  "dict_set k v [] = [(k, v)]"
| "dict_set k v ((k', v') # kvs) =
     (if k' = k then (k, v) # kvs else (k', v') # dict_set k v kvs)"

definition add_metadata :: "(string \<times> string) list \<Rightarrow> 'a writer \<Rightarrow> 'a writer" where
  "add_metadata md w =
     w\<lparr>w_metadata := fold (\<lambda>(k, v). dict_set k v) md (w_metadata w)\<rparr>"

definition write_pdf :: "'a writer \<Rightarrow> 'a document" where
  "write_pdf w =
     \<lparr>pages = w_pages w,
      metadata = Some (map (\<lambda>(k, v). (k, TextString v)) (w_metadata w)),
      encryption = None\<rparr>"

definition is_encrypted :: "'a document \<Rightarrow> bool" where
  "is_encrypted r = (encryption r \<noteq> None)"

text \<open>\<^verbatim>\<open>not password\<close>: no password, or the empty one.\<close>

definition no_password :: "string option \<Rightarrow> bool" where
  "no_password password = (case password of None \<Rightarrow> True | Some pw \<Rightarrow> pw = [])"

definition decrypt :: "'a document \<Rightarrow> string option \<Rightarrow> bool" where
  "decrypt r password =
     (case (encryption r, password) of
        (Some pws, Some pw) \<Rightarrow> pw \<in> set pws
      | _ \<Rightarrow> False)"

text \<open>
  The operations of \<^verbatim>\<open>pathlib\<close> that the program uses are parameters: building a path
  from a string, \<^verbatim>\<open>out_dir / name\<close>, \<^verbatim>\<open>path.stem\<close> and \<^verbatim>\<open>str(path)\<close>. The file system
  maps a path to the document stored there; \<^verbatim>\<open>path.exists()\<close> is a lookup.
  Directories are not modelled, so the two \<^verbatim>\<open>mkdir\<close> calls leave the state as it is.
\<close>

record 'p pathlib =
  Path :: "string \<Rightarrow> 'p"
  joinpath :: "'p \<Rightarrow> string \<Rightarrow> 'p"
  stem :: "'p \<Rightarrow> string"
  path_str :: "'p \<Rightarrow> string"

type_synonym ('p, 'a) fs = "'p \<Rightarrow> 'a document option"

definition exists :: "('p, 'a) fs \<Rightarrow> 'p \<Rightarrow> bool" where
  "exists fs p = (fs p \<noteq> None)"

text \<open>
  An instance of the path operations for evaluation: a path is its string, taken as
  already normalised; joining puts a slash between directory and name unless the name
  is absolute or the directory is the current one.
\<close>

definition stem_of :: "string \<Rightarrow> string" where
  "stem_of s =
     (let name = rev (takeWhile (\<lambda>c. c \<noteq> CHR ''/'') (rev s));
          suffix = rev (takeWhile (\<lambda>c. c \<noteq> CHR ''.'') (rev name));
          i = length name - length suffix
      in if CHR ''.'' \<in> set name \<and> 1 < i \<and> suffix \<noteq> [] then take (i - 1) name else name)"

definition plain_paths :: "string pathlib" where
  "plain_paths =
     \<lparr>Path = (\<lambda>s. if s = [] then ''.'' else s),
      joinpath = (\<lambda>d n. if startswith n CHR ''/'' then n
                        else if d = ''.'' then n else d @ ''/'' @ n),
      stem = stem_of,
      path_str = (\<lambda>p. p)\<rparr>"


section \<open>Merge\<close>

text \<open>The loop that opens the inputs; \<^verbatim>\<open>open\<close> raises when the file is missing.\<close>

fun open_inputs ::
  "'p pathlib \<Rightarrow> ('p, 'a) fs \<Rightarrow> string list \<Rightarrow> string option \<Rightarrow> 'a document list \<Rightarrow>
   failure + 'a document list" where
  "open_inputs L fs [] password readers = Inr readers"
| "open_inputs L fs (path # inputs) password readers =
     (case fs (Path L path) of
        None \<Rightarrow> Inl (Uncaught (FileNotFoundError path))
      | Some r \<Rightarrow>
          if is_encrypted r \<and> no_password password then
            Inl (SystemExit (''File is encrypted: '' @ path @ '' (pass --password)'') 2)
          else if is_encrypted r \<and> \<not> decrypt r password then
            Inl (SystemExit (''Failed to decrypt: '' @ path @ '' (check --password)'') 2)
          else open_inputs L fs inputs password (readers @ [r]))"

text \<open>The loop over the metadata items of the first reader.\<close>

fun copy_metadata ::
  "(string \<times> md_value) list \<Rightarrow> (string \<times> string) list \<Rightarrow> (string \<times> string) list" where
  "copy_metadata [] md = md"
| "copy_metadata ((k, v) # items) md =
     (if k \<noteq> [] \<and> startswith k CHR ''/''
      then copy_metadata items (dict_set k (if v = NoneValue then [] else str_value v) md)
      else copy_metadata items md)"

definition preserve_metadata :: "'a document list \<Rightarrow> 'a writer \<Rightarrow> 'a writer" where
  "preserve_metadata readers w =
     (case readers of
        [] \<Rightarrow> w
      | r # _ \<Rightarrow>
          (case metadata r of
             None \<Rightarrow> w
           | Some items \<Rightarrow>
               if items = [] then w
               else (let md = copy_metadata items []
                     in if md \<noteq> [] then add_metadata md w else w)))"

definition append_all :: "'a document list \<Rightarrow> 'a writer \<Rightarrow> 'a writer" where
  "append_all readers w = fold (\<lambda>r. fold add_page (pages r)) readers w"

definition merge_cmd ::
  "'p pathlib \<Rightarrow> ('p, 'a) fs \<Rightarrow> string list \<Rightarrow> string \<Rightarrow> string option \<Rightarrow> bool \<Rightarrow>
   ('p, 'a) fs \<times> (failure + unit)" where
  "merge_cmd L fs inputs output password overwrite =
     (let out_path = Path L output
      in if exists fs out_path \<and> \<not> overwrite then
           (fs, Inl (SystemExit (''Refusing to overwrite existing file: '' @
                       path_str L out_path @ '' (use --overwrite)'') 2))
         else
           (case open_inputs L fs inputs password [] of
              Inl e \<Rightarrow> (fs, Inl e)
            | Inr readers \<Rightarrow>
                (let writer = append_all readers (preserve_metadata readers PdfWriter)
                 in (fs(out_path \<mapsto> write_pdf writer), Inr ()))))"


section \<open>Split\<close>

definition require_exists :: "'p pathlib \<Rightarrow> ('p, 'a) fs \<Rightarrow> 'p \<Rightarrow> failure + unit" where
  "require_exists L fs path =
     (if \<not> exists fs path then err (''Input not found: '' @ path_str L path) else Inr ())"

text \<open>\<^verbatim>\<open>reader.pages[i]\<close>, with Python's indexing from the end for a negative index.\<close>

definition get_page :: "'a list \<Rightarrow> int \<Rightarrow> failure + 'a" where
  "get_page pgs i =
     (if 0 \<le> i \<and> i < int (length pgs) then Inr (pgs ! nat i)
      else if i < 0 \<and> - int (length pgs) \<le> i then Inr (pgs ! nat (int (length pgs) + i))
      else Inl (Uncaught IndexError))"

fun collect_pages :: "'a list \<Rightarrow> int list \<Rightarrow> 'a writer \<Rightarrow> failure + 'a writer" where
  "collect_pages pgs [] w = Inr w"
| "collect_pages pgs (i # is) w =
     (case get_page pgs i of
        Inl e \<Rightarrow> Inl e
      | Inr page \<Rightarrow> collect_pages pgs is (add_page page w))"

text \<open>The planning loop: one target path per range, in order.\<close>

fun plan_names ::
  "'p pathlib \<Rightarrow> 'p \<Rightarrow> string \<Rightarrow> string option \<Rightarrow> (int \<times> int) list \<Rightarrow> 'p list \<Rightarrow>
   failure + 'p list" where
  "plan_names L out_dir base name_pattern [] planned = Inr planned"
| "plan_names L out_dir base name_pattern ((a, b) # ranges) planned =
     (case make_split_name base a b name_pattern of
        Inl e \<Rightarrow> Inl e
      | Inr name \<Rightarrow>
          plan_names L out_dir base name_pattern ranges (planned @ [joinpath L out_dir name]))"

definition refusal :: "'p pathlib \<Rightarrow> 'p list \<Rightarrow> string" where
  "refusal L clashes =
     ''Refusing to overwrite existing files:'' @ [CHR 0x0A] @
     join [CHR 0x0A] (map (path_str L) clashes) @ [CHR 0x0A] @ ''(use --overwrite)''"

text \<open>The writing loop over \<^verbatim>\<open>zip(ranges, planned)\<close>.\<close>

fun write_outputs ::
  "('p, 'a) fs \<Rightarrow> 'a list \<Rightarrow> ((int \<times> int) \<times> 'p) list \<Rightarrow> ('p, 'a) fs \<times> (failure + unit)" where
  "write_outputs fs pgs [] = (fs, Inr ())"
| "write_outputs fs pgs (((a, b), target) # rest) =
     (case collect_pages pgs [a - 1..b - 1] PdfWriter of
        Inl e \<Rightarrow> (fs, Inl e)
      | Inr writer \<Rightarrow> write_outputs (fs(target \<mapsto> write_pdf writer)) pgs rest)"

definition split_cmd ::
  "'p pathlib \<Rightarrow> ('p, 'a) fs \<Rightarrow> string \<Rightarrow> string \<Rightarrow> string \<Rightarrow> string option \<Rightarrow>
   string option \<Rightarrow> bool \<Rightarrow> ('p, 'a) fs \<times> (failure + unit)" where
  "split_cmd L fs input_file ranges_spec outdir password name_pattern overwrite =
     (let in_path = Path L input_file
      in case require_exists L fs in_path of
           Inl e \<Rightarrow> (fs, Inl e)
         | Inr _ \<Rightarrow>
             (let out_dir = (if outdir \<noteq> [] then Path L outdir else Path L ''.'')
              in case fs in_path of
                   None \<Rightarrow> (fs, Inl (Uncaught (FileNotFoundError (path_str L in_path))))
                 | Some reader \<Rightarrow>
                     if is_encrypted reader \<and> no_password password then
                       (fs, err (''File is encrypted: '' @ path_str L in_path @
                                 '' (pass --password)''))
                     else if is_encrypted reader \<and> \<not> decrypt reader password then
                       (fs, err (''Failed to decrypt: '' @ path_str L in_path @
                                 '' (check --password)''))
                     else
                       (case parse_ranges ranges_spec (int (length (pages reader))) of
                          Inl e \<Rightarrow> (fs, Inl e)
                        | Inr ranges \<Rightarrow>
                            (case plan_names L out_dir (stem L in_path) name_pattern ranges [] of
                               Inl e \<Rightarrow> (fs, Inl e)
                             | Inr planned \<Rightarrow>
                                 (let clashes = filter (exists fs) planned
                                  in if clashes \<noteq> [] \<and> \<not> overwrite then
                                       (fs, err (refusal L clashes))
                                     else write_outputs fs (pages reader)
                                            (zip ranges planned))))))"


section \<open>Notions used in the statements\<close>

text \<open>
  A name pattern built from plain pieces: literal text without braces, and the four
  replacement fields. \<open>piece_source\<close> is the text of a piece in the pattern and
  \<open>piece_value\<close> the text that replaces it in the file name.
\<close>

datatype piece = Text string | Field string

definition piece_source :: "piece \<Rightarrow> string" where
  "piece_source p = (case p of Text s \<Rightarrow> s | Field n \<Rightarrow> ''{'' @ n @ ''}'')"

definition plain_piece :: "piece \<Rightarrow> bool" where
  "plain_piece p =
     (case p of
        Text s \<Rightarrow> CHR ''{'' \<notin> set s \<and> CHR ''}'' \<notin> set s
      | Field n \<Rightarrow> n \<in> set [''base'', ''page'', ''start'', ''end''])"

definition piece_value :: "string \<Rightarrow> int \<Rightarrow> int \<Rightarrow> piece \<Rightarrow> string" where
  "piece_value base start end p =
     (case p of
        Text s \<Rightarrow> s
      | Field n \<Rightarrow>
          if n = ''base'' then base
          else if n = ''start'' then str_int start
          else if n = ''end'' then str_int end
          else if start = end then str_int start
          else ''None'')"





text \<open>
  The pages of a range, and the document written for it: its only metadata is the
  entry that every new writer holds.
\<close>

definition page_slice :: "'a list \<Rightarrow> int \<times> int \<Rightarrow> 'a list" where
  "page_slice pgs r = take (nat (snd r - fst r + 1)) (drop (nat (fst r - 1)) pgs)"

definition segment :: "'a list \<Rightarrow> int \<times> int \<Rightarrow> 'a document" where
  "segment pgs r =
     \<lparr>pages = page_slice pgs r,
      metadata = Some [(''/Producer'', TextString ''pypdf'')],
      encryption = None\<rparr>"

definition in_bounds :: "'a list \<Rightarrow> ((int \<times> int) \<times> 'p) list \<Rightarrow> bool" where
  "in_bounds pgs zs =
     list_all (\<lambda>z. 1 \<le> fst (fst z) \<and> snd (fst z) \<le> int (length pgs)) zs"

text \<open>Example inputs.\<close>

definition doc_a :: "string document" where
  "doc_a =
     \<lparr>pages = [''A1'', ''A2''],
      metadata = Some [(''/Title'', NullObject), (''Author'', TextString ''x'')],
      encryption = None\<rparr>"

definition doc_b :: "string document" where
  "doc_b =
     \<lparr>pages = [''B1'', ''B2'', ''B3''],
      metadata = Some [(''/Title'', TextString ''B''), (''/Subject'', NullObject)],
      encryption = None\<rparr>"


definition two_files :: "(string, string) fs" where
  "two_files = (\<lambda>p. None)(''a.pdf'' \<mapsto> doc_a, ''b.pdf'' \<mapsto> doc_b)"


definition after_split :: "(string, string) fs" where
  "after_split = two_files(''out/b_p1.pdf'' \<mapsto> doc_a, ''out/b_p3.pdf'' \<mapsto> doc_a)"


section \<open>Properties of the range parser\<close>

lemma parse_token_range:
  "parse_token tok tp = Inr (s, e) \<Longrightarrow> 1 \<le> s \<and> s \<le> e \<and> e \<le> tp"
  by (auto simp: parse_token_def err_def split: sum.splits prod.splits if_splits)

lemma parse_loop_Inr:
  "parse_loop toks tp acc = Inr rs \<Longrightarrow>
   \<exists>rs'. rs = acc @ rs' \<and> map Inr rs' = map (\<lambda>t. parse_token t tp) toks"
proof (induction toks arbitrary: acc)
  case Nil
  then show ?case by simp
next
  case (Cons tok toks)
  from Cons.prems obtain r where r: "parse_token tok tp = Inr r"
    and rest: "parse_loop toks tp (acc @ [r]) = Inr rs"
    by (auto split: sum.splits)
  from Cons.IH [OF rest] obtain rs' where "rs = (acc @ [r]) @ rs'"
    and "map Inr rs' = map (\<lambda>t. parse_token t tp) toks" by blast
  then have "rs = acc @ (r # rs') \<and>
      map Inr (r # rs') = map (\<lambda>t. parse_token t tp) (tok # toks)"
    using r by simp
  then show ?case by blast
qed


lemma parse_ranges_Inr:
  "parse_ranges spec tp = Inr rs \<Longrightarrow> parse_loop (tokens_of spec) tp [] = Inr rs"
  by (auto simp: parse_ranges_def Let_def err_def split: if_splits sum.splits)

text \<open>
  C1. Whenever \<open>parse_ranges\<close> succeeds, every returned pair \<open>(start, end)\<close> satisfies
  \<open>1 \<le> start \<le> end \<le> total_pages\<close>, and the returned list is, position by position,
  the list of the ranges of the non-empty tokens of the input: one pair per token, in
  the order and with the multiplicity of the tokens. The statement holds for every
  page count, in particular for every \<open>total_pages \<ge> 1\<close>.
\<close>

theorem parse_ranges_sound:
  assumes "parse_ranges spec total_pages = Inr rs"
  shows "(\<forall>(s, e)\<in>set rs. 1 \<le> s \<and> s \<le> e \<and> e \<le> total_pages) \<and>
         map Inr rs = map (\<lambda>t. parse_token t total_pages) (tokens_of spec)"
proof -
  from parse_loop_Inr [OF parse_ranges_Inr [OF assms]]
  have m: "map Inr rs = map (\<lambda>t. parse_token t total_pages) (tokens_of spec)" by simp
  have "1 \<le> s \<and> s \<le> e \<and> e \<le> total_pages" if "(s, e) \<in> set rs" for s e
  proof -
    from that have "Inr (s, e) \<in> set (map (\<lambda>t. parse_token t total_pages) (tokens_of spec))"
      unfolding m [symmetric] by force
    then obtain t where "parse_token t total_pages = Inr (s, e)" by auto
    then show ?thesis by (rule parse_token_range)
  qed
  with m show ?thesis by blast
qed

theorem parse_ranges_sound_witness:
  "parse_ranges ''2, 2,,1-3'' 4 = Inr [(2, 2), (2, 2), (1, 3)] \<and>
   map Inr [(2, 2), (2, 2), (1, 3)] = map (\<lambda>t. parse_token t 4) (tokens_of ''2, 2,,1-3'')"
proof -
  have h: "parse_ranges ''2, 2,,1-3'' 4 = Inr [(2, 2), (2, 2), (1, 3)]"
    by code_simp
  from h parse_ranges_sound [OF h] show ?thesis by blast
qed

lemma is_digit_digit_char: "d < 10 \<Longrightarrow> is_digit (digit_char d)"
  by (simp add: is_digit_def digit_char_def)

lemma digit_val_digit_char: "d < 10 \<Longrightarrow> digit_val (digit_char d) = d"
  by (simp add: digit_val_def digit_char_def)

lemma is_digit_plain:
  "is_digit c \<Longrightarrow> \<not> is_space c \<and> \<not> is_int_space c \<and> c \<noteq> CHR ''-'' \<and> c \<noteq> CHR ''+'' \<and> c \<noteq> CHR '',''"
  by (auto simp: is_digit_def is_space_def is_int_space_def Let_def)

lemma str_nat_digits: "str_nat n \<noteq> [] \<and> (\<forall>c\<in>set (str_nat n). is_digit c)"
proof (induction n rule: str_nat.induct)
  case (1 n)
  show ?case
  proof (cases "n < 10")
    case True
    then show ?thesis by (simp add: str_nat.simps [of n] is_digit_digit_char)
  next
    case False
    with 1 show ?thesis by (simp add: str_nat.simps [of n] is_digit_digit_char)
  qed
qed

lemma digits_acc_digits:
  "\<forall>c\<in>set xs. is_digit c \<Longrightarrow>
   digits_acc a xs = Some (foldl (\<lambda>a c. 10 * a + digit_val c) a xs)"
  by (induction xs arbitrary: a) auto

lemma digits_value_digits:
  "xs \<noteq> [] \<Longrightarrow> \<forall>c\<in>set xs. is_digit c \<Longrightarrow>
   digits_value xs = Some (foldl (\<lambda>a c. 10 * a + digit_val c) 0 xs)"
  by (cases xs) (simp_all add: digits_acc_digits)

lemma foldl_str_nat: "foldl (\<lambda>a c. 10 * a + digit_val c) 0 (str_nat n) = n"
proof (induction n rule: str_nat.induct)
  case (1 n)
  show ?case
  proof (cases "n < 10")
    case True
    then show ?thesis by (simp add: str_nat.simps [of n] digit_val_digit_char)
  next
    case False
    with 1 show ?thesis by (simp add: str_nat.simps [of n] digit_val_digit_char)
  qed
qed

lemma digits_value_str_nat: "digits_value (str_nat n) = Some n"
  using str_nat_digits [of n] by (simp add: digits_value_digits foldl_str_nat)

lemma strip_with_id:
  assumes "s \<noteq> []" "\<not> sp (hd s)" "\<not> sp (last s)"
  shows "strip_with sp s = s"
proof -
  from assms have "dropWhile sp s = s" by (cases s) auto
  moreover from assms have "dropWhile sp (rev s) = rev s"
    by (cases "rev s") (auto simp: last_rev hd_rev)
  ultimately show ?thesis by (simp add: strip_with_def)
qed

lemma py_int_str_nat: "py_int (str_nat n) = Some (int n)"
proof -
  from str_nat_digits [of n] obtain c cs where s: "str_nat n = c # cs" and c: "is_digit c"
    and l: "is_digit (last (str_nat n))"
    by (cases "str_nat n") auto
  from c l have "strip_with is_int_space (str_nat n) = str_nat n"
    by (intro strip_with_id) (auto simp: s dest: is_digit_plain)
  with digits_value_str_nat [of n] c show ?thesis
    using is_digit_plain [OF c] by (simp add: py_int_def s)
qed

lemma split_char_none: "sep \<notin> set s \<Longrightarrow> split_char sep s = [s]"
  by (induction s) auto

lemma tokens_of_single:
  assumes "s \<noteq> []" "CHR '','' \<notin> set s" "\<not> is_space (hd s)" "\<not> is_space (last s)"
  shows "tokens_of s = [s]"
  using assms by (simp add: tokens_of_def split_char_none strip_def strip_with_id)

lemma str_nat_shape:
  "str_nat n \<noteq> [] \<and> CHR '','' \<notin> set (str_nat n) \<and> CHR ''-'' \<notin> set (str_nat n) \<and>
   \<not> is_space (hd (str_nat n)) \<and> \<not> is_space (last (str_nat n)) \<and>
   hd (str_nat n) \<noteq> CHR ''-''"
proof -
  from str_nat_digits [of n] have ne: "str_nat n \<noteq> []"
    and all: "\<And>c. c \<in> set (str_nat n) \<Longrightarrow> is_digit c" by auto
  from ne have "is_digit (hd (str_nat n))" "is_digit (last (str_nat n))"
    by (simp_all add: all)
  then have "\<not> is_space (hd (str_nat n))" "\<not> is_space (last (str_nat n))"
    "hd (str_nat n) \<noteq> CHR ''-''"
    using is_digit_plain by blast+
  moreover have "CHR '','' \<notin> set (str_nat n)" "CHR ''-'' \<notin> set (str_nat n)"
    using all is_digit_plain by blast+
  ultimately show ?thesis using ne by simp
qed

lemma not_space_dash: "\<not> is_space CHR ''-''"
  by (simp add: is_space_def)

lemma open_start_parse:
  assumes "1 \<le> b" "b \<le> tp"
  shows "parse_ranges (''-'' @ str_int b) tp = Inr [(1, b)]"
proof -
  define n where "n = nat b"
  define s where "s = str_nat n"
  from assms have sb: "str_int b = s" and b: "b = int n"
    by (simp_all add: str_int_def n_def s_def)
  from str_nat_shape [of n] have ne: "s \<noteq> []" and nc: "CHR '','' \<notin> set s"
    and ls: "\<not> is_space (last s)"
    by (simp_all add: s_def)
  have pi: "py_int s = Some (int n)" by (simp add: s_def py_int_str_nat)
  have t: "tokens_of (CHR ''-'' # s) = [CHR ''-'' # s]"
    using ne nc ls by (simp add: tokens_of_single not_space_dash)
  have "token_bounds (CHR ''-'' # s) tp = Inr (1, int n)"
    using ne by (simp add: token_bounds_def startswith_def pi)
  with assms b have "parse_token (CHR ''-'' # s) tp = Inr (1, b)"
    by (simp add: parse_token_def)
  with t sb show ?thesis by (simp add: parse_ranges_def)
qed

lemma open_end_parse:
  assumes "1 \<le> a" "a \<le> tp"
  shows "parse_ranges (str_int a @ ''-'') tp = Inr [(a, tp)]"
proof -
  define n where "n = nat a"
  define s where "s = str_nat n"
  from assms have sa: "str_int a = s" and a: "a = int n"
    by (simp_all add: str_int_def n_def s_def)
  from str_nat_shape [of n] have ne: "s \<noteq> []" and nc: "CHR '','' \<notin> set s"
    and hs: "\<not> is_space (hd s)" and hd: "hd s \<noteq> CHR ''-''"
    by (simp_all add: s_def)
  have pi: "py_int s = Some (int n)" by (simp add: s_def py_int_str_nat)
  have t: "tokens_of (s @ ''-'') = [s @ ''-'']"
    using ne nc hs by (simp add: tokens_of_single not_space_dash)
  have sw: "\<not> startswith (s @ ''-'') CHR ''-''"
    using ne hd by (cases s) (simp_all add: startswith_def)
  have "token_bounds (s @ ''-'') tp = Inr (int n, tp)"
    using ne sw by (simp add: token_bounds_def endswith_def pi)
  with assms a have "parse_token (s @ ''-'') tp = Inr (a, tp)"
    by (simp add: parse_token_def)
  with t sa show ?thesis by (simp add: parse_ranges_def)
qed

lemma example_mixed: "parse_ranges ''1-3,7,9-'' 10 = Inr [(1, 3), (7, 7), (9, 10)]"
  by code_simp

lemma example_open_start: "parse_ranges ''-3'' 10 = Inr [(1, 3)]"
  by code_simp

lemma example_open_end: "parse_ranges ''5-'' 10 = Inr [(5, 10)]"
  by code_simp

text \<open>
  C2. The token \<open>-B\<close>, with \<open>B\<close> the decimal numeral of a page \<open>1 \<le> B \<le> total_pages\<close>, parses
  as the range \<open>(1, B)\<close>, and the token \<open>A-\<close> parses as \<open>(A, total_pages)\<close>. In particular
  \<open>parse_ranges "1-3,7,9-" 10 = [(1,3),(7,7),(9,10)]\<close>, \<open>parse_ranges "-3" 10 = [(1,3)]\<close> and
  \<open>parse_ranges "5-" 10 = [(5,10)]\<close>.
\<close>

theorem open_ranges:
  "(1 \<le> b \<and> b \<le> tp \<longrightarrow> parse_ranges (''-'' @ str_int b) tp = Inr [(1, b)]) \<and>
   (1 \<le> a \<and> a \<le> tp \<longrightarrow> parse_ranges (str_int a @ ''-'') tp = Inr [(a, tp)]) \<and>
   parse_ranges ''1-3,7,9-'' 10 = Inr [(1, 3), (7, 7), (9, 10)] \<and>
   parse_ranges ''-3'' 10 = Inr [(1, 3)] \<and>
   parse_ranges ''5-'' 10 = Inr [(5, 10)]"
  using open_start_parse [of b tp] open_end_parse [of a tp]
    example_mixed example_open_start example_open_end
  by blast

theorem open_ranges_witness:
  "parse_ranges (''-'' @ str_int 4) 12 = Inr [(1, 4)] \<and>
   parse_ranges (str_int 7 @ ''-'') 12 = Inr [(7, 12)]"
  using open_ranges [of 4 12 7] by simp













lemma tokens_spaced: "tokens_of ''1 - 3'' = [''1 - 3'']"
  by code_simp

lemma tokens_plus: "tokens_of ''+5'' = [''+5'']"
  by code_simp

lemma int_one_sp: "py_int ''1 '' = Some 1"
  by code_simp

lemma int_sp_three: "py_int '' 3'' = Some 3"
  by code_simp

lemma int_plus_five: "py_int ''+5'' = Some 5"
  by code_simp

lemma bounds_spaced: "token_bounds ''1 - 3'' tp = Inr (1, 3)"
  by (simp add: token_bounds_def startswith_def endswith_def split_first_def
      int_one_sp int_sp_three)

lemma bounds_plus: "token_bounds ''+5'' tp = Inr (5, 5)"
  by (simp add: token_bounds_def int_plus_five)

text \<open>
  C9. The parser accepts tokens outside the stated grammar: for every page count of at
  least 5, the spec \<open>"1 - 3"\<close> (blanks around the dash) yields the range \<open>(1, 3)\<close> and the
  spec \<open>"+5"\<close> (an explicit sign) yields \<open>(5, 5)\<close>; neither fails as a non-numeric token,
  because the integer conversion strips blanks and accepts a sign.
\<close>

theorem lenient_tokens:
  assumes "5 \<le> tp"
  shows "parse_ranges ''1 - 3'' tp = Inr [(1, 3)] \<and> parse_ranges ''+5'' tp = Inr [(5, 5)]"
  using assms
  by (simp add: parse_ranges_def tokens_spaced tokens_plus parse_token_def
      bounds_spaced bounds_plus)

theorem lenient_tokens_witness:
  "parse_ranges ''1 - 3'' 5 = Inr [(1, 3)] \<and> parse_ranges ''+5'' 5 = Inr [(5, 5)]"
  using lenient_tokens [of 5] by simp

section \<open>Properties of merge\<close>

lemma open_inputs_Inr:
  "open_inputs L fs inputs password acc = Inr rs \<Longrightarrow>
   \<exists>docs. rs = acc @ docs \<and> map (\<lambda>p. fs (Path L p)) inputs = map Some docs"
proof (induction inputs arbitrary: acc)
  case Nil
  then show ?case by simp
next
  case (Cons p ps)
  from Cons.prems obtain r where r: "fs (Path L p) = Some r"
    and rest: "open_inputs L fs ps password (acc @ [r]) = Inr rs"
    by (auto split: option.splits if_splits)
  from Cons.IH [OF rest] obtain docs where "rs = (acc @ [r]) @ docs"
    and "map (\<lambda>p. fs (Path L p)) ps = map Some docs" by blast
  with r have "rs = acc @ (r # docs) \<and>
      map (\<lambda>p. fs (Path L p)) (p # ps) = map Some (r # docs)"
    by simp
  then show ?case by blast
qed

lemma fold_add_page: "fold add_page ps w = w\<lparr>w_pages := w_pages w @ ps\<rparr>"
  by (induction ps arbitrary: w) (simp_all add: add_page_def)

lemma append_all_eq: "append_all rs w = w\<lparr>w_pages := w_pages w @ concat (map pages rs)\<rparr>"
  unfolding append_all_def
  by (induction rs arbitrary: w) (simp_all add: fold_add_page)

lemma preserve_metadata_pages: "w_pages (preserve_metadata rs w) = w_pages w"
  by (simp add: preserve_metadata_def add_metadata_def Let_def split: list.splits option.splits)

lemma merge_cmd_Inr:
  assumes "merge_cmd L fs inputs output password overwrite = (fs', Inr ())"
  shows "\<exists>rs. open_inputs L fs inputs password [] = Inr rs \<and>
     fs' = fs(Path L output \<mapsto> write_pdf (append_all rs (preserve_metadata rs PdfWriter)))"
  using assms
  by (auto simp: merge_cmd_def Let_def split: if_splits sum.splits)

text \<open>
  C7. When a merge succeeds, every input exists, and the document written to the
  output path holds the pages of all inputs concatenated: grouped by input in the
  order the inputs were given, each group in the native order of its document. Its
  page count is the sum of the page counts of the inputs.
\<close>

theorem merge_concatenates:
  assumes "merge_cmd L fs inputs output password overwrite = (fs', Inr ())"
  shows "\<exists>docs out. map (\<lambda>p. fs (Path L p)) inputs = map Some docs \<and>
     fs' (Path L output) = Some out \<and>
     pages out = concat (map pages docs) \<and>
     length (pages out) = sum_list (map (\<lambda>d. length (pages d)) docs)"
proof -
  from merge_cmd_Inr [OF assms] obtain rs
    where o: "open_inputs L fs inputs password [] = Inr rs"
      and fs': "fs' = fs(Path L output \<mapsto>
        write_pdf (append_all rs (preserve_metadata rs PdfWriter)))"
    by blast
  from open_inputs_Inr [OF o] have m: "map (\<lambda>p. fs (Path L p)) inputs = map Some rs" by simp
  define out where "out = write_pdf (append_all rs (preserve_metadata rs PdfWriter))"
  have p: "pages out = concat (map pages rs)"
    by (simp add: out_def write_pdf_def append_all_eq preserve_metadata_pages PdfWriter_def)
  have "length (concat (map pages rs)) = sum_list (map (\<lambda>d. length (pages d)) rs)"
    by (simp add: length_concat comp_def)
  with m p fs' show ?thesis by (auto simp: out_def)
qed

lemma merge_two_ok:
  "snd (merge_cmd plain_paths two_files [''a.pdf'', ''b.pdf''] ''out.pdf'' None False) = Inr ()"
  by code_simp

theorem merge_concatenates_witness:
  "map_option pages
     (fst (merge_cmd plain_paths two_files [''a.pdf'', ''b.pdf''] ''out.pdf'' None False)
        ''out.pdf'') =
   Some [''A1'', ''A2'', ''B1'', ''B2'', ''B3'']"
proof -
  let ?run = "merge_cmd plain_paths two_files [''a.pdf'', ''b.pdf''] ''out.pdf'' None False"
  have h: "?run = (fst ?run, Inr ())"
    using merge_two_ok by (simp add: prod_eq_iff)
  from merge_concatenates [OF h] obtain docs out where
    d: "map (\<lambda>p. two_files (Path plain_paths p)) [''a.pdf'', ''b.pdf''] = map Some docs"
    and o: "fst ?run (Path plain_paths ''out.pdf'') = Some out"
    and p: "pages out = concat (map pages docs)" by blast
  from d have "docs = [doc_a, doc_b]"
    by (auto simp: two_files_def plain_paths_def)
  with o p show ?thesis by (simp add: plain_paths_def doc_a_def doc_b_def)
qed













text \<open>
  C6. With \<open>a.pdf\<close> present, \<open>gone.pdf\<close> and \<open>out.pdf\<close> absent, a merge of the two inputs
  ends in the uncaught \<^verbatim>\<open>FileNotFoundError\<close> of \<^verbatim>\<open>open\<close>, not in the program's own
  \<open>Input not found\<close> failure; nothing is written. On the same missing path, split
  reports \<open>Input not found\<close> through \<^verbatim>\<open>require_exists\<close>.
\<close>

theorem merge_missing_input_uncaught:
  "merge_cmd plain_paths two_files [''a.pdf'', ''gone.pdf''] ''out.pdf'' None False =
     (two_files, Inl (Uncaught (FileNotFoundError ''gone.pdf''))) \<and>
   split_cmd plain_paths two_files ''gone.pdf'' ''1'' ''out'' None None False =
     (two_files, Inl (SystemExit ''Input not found: gone.pdf'' 2))"
proof -
  have "merge_cmd plain_paths two_files [''a.pdf'', ''gone.pdf''] ''out.pdf'' None False =
     (two_files, Inl (Uncaught (FileNotFoundError ''gone.pdf'')))"
    by (simp add: merge_cmd_def plain_paths_def exists_def two_files_def is_encrypted_def
        doc_a_def)
  moreover have "split_cmd plain_paths two_files ''gone.pdf'' ''1'' ''out'' None None False =
     (two_files, Inl (SystemExit ''Input not found: gone.pdf'' 2))"
    by (simp add: split_cmd_def require_exists_def plain_paths_def exists_def two_files_def
        Let_def err_def)
  ultimately show ?thesis by simp
qed

section \<open>Properties of the segment names\<close>

lemma prepend_prepend: "prepend a (prepend b x) = prepend (a @ b) x"
  by (cases x) (simp_all add: prepend_def)

lemma prepend_Nil: "prepend [] x = x"
  by (cases x) (simp_all add: prepend_def)

lemma format_scan_text:
  "CHR ''{'' \<notin> set s \<Longrightarrow> CHR ''}'' \<notin> set s \<Longrightarrow>
   format_scan kw (s @ rest) = prepend s (format_scan kw rest)"
proof (induction s)
  case Nil
  show ?case by (simp add: prepend_Nil)
next
  case (Cons c s)
  then have "c \<noteq> CHR ''{''" "c \<noteq> CHR ''}''"
    and IH: "format_scan kw (s @ rest) = prepend s (format_scan kw rest)" by auto
  then show ?case by (simp add: prepend_prepend)
qed

lemma format_field_name:
  "CHR ''}'' \<notin> set n \<Longrightarrow>
   format_field kw acc (n @ CHR ''}'' # rest) =
     (case get_field kw (rev acc @ n) of
        Inl e \<Rightarrow> Inl e
      | Inr v \<Rightarrow> prepend v (format_scan kw rest))"
proof (induction n arbitrary: acc)
  case Nil
  show ?case by simp
next
  case (Cons c n)
  then have "c \<noteq> CHR ''}''" and "CHR ''}'' \<notin> set n" by auto
  with Cons.IH [of "c # acc"] show ?case by simp
qed

lemma get_field_base: "get_field (name_kwargs base s e) ''base'' = Inr base"
  by (simp add: get_field_def name_kwargs_def is_digit_def py_str_def)

lemma get_field_start: "get_field (name_kwargs base s e) ''start'' = Inr (str_int s)"
  by (simp add: get_field_def name_kwargs_def is_digit_def py_str_def)

lemma get_field_end: "get_field (name_kwargs base s e) ''end'' = Inr (str_int e)"
  by (simp add: get_field_def name_kwargs_def is_digit_def py_str_def)

lemma get_field_page:
  "get_field (name_kwargs base s e) ''page'' = Inr (if s = e then str_int s else ''None'')"
  by (simp add: get_field_def name_kwargs_def is_digit_def py_str_def)

lemma get_field_keyword:
  assumes "n \<in> set [''base'', ''page'', ''start'', ''end'']"
  shows "get_field (name_kwargs base s e) n = Inr (piece_value base s e (Field n))"
proof -
  from assms consider "n = ''base''" | "n = ''page''" | "n = ''start''" | "n = ''end''"
    by auto
  then show ?thesis
  proof cases
    case 1
    then show ?thesis by (simp add: get_field_base piece_value_def)
  next
    case 2
    then show ?thesis by (simp add: get_field_page piece_value_def)
  next
    case 3
    then show ?thesis by (simp add: get_field_start piece_value_def)
  next
    case 4
    then show ?thesis by (simp add: get_field_end piece_value_def)
  qed
qed

lemma keyword_shape:
  assumes "n \<in> set [''base'', ''page'', ''start'', ''end'']"
  shows "CHR ''}'' \<notin> set n \<and> (\<exists>c cs. n = c # cs \<and> c \<noteq> CHR ''{'')"
proof -
  from assms consider "n = ''base''" | "n = ''page''" | "n = ''start''" | "n = ''end''"
    by auto
  then show ?thesis by cases simp_all
qed

lemma format_scan_field:
  assumes "n \<in> set [''base'', ''page'', ''start'', ''end'']"
  shows "format_scan (name_kwargs base s e) (CHR ''{'' # n @ CHR ''}'' # rest) =
     prepend (piece_value base s e (Field n)) (format_scan (name_kwargs base s e) rest)"
proof -
  from keyword_shape [OF assms] obtain c cs where nb: "CHR ''}'' \<notin> set n"
    and n: "n = c # cs" and c: "c \<noteq> CHR ''{''" by blast
  have "format_scan (name_kwargs base s e) (CHR ''{'' # n @ CHR ''}'' # rest) =
      format_field (name_kwargs base s e) [] (n @ CHR ''}'' # rest)"
    using c by (simp add: n)
  also have "\<dots> = (case get_field (name_kwargs base s e) n of
        Inl x \<Rightarrow> Inl x
      | Inr v \<Rightarrow> prepend v (format_scan (name_kwargs base s e) rest))"
    using format_field_name [OF nb, of "name_kwargs base s e" "[]" rest] by simp
  also have "\<dots> = prepend (piece_value base s e (Field n))
      (format_scan (name_kwargs base s e) rest)"
    by (simp add: get_field_keyword [OF assms])
  finally show ?thesis .
qed

lemma piece_text: "piece_source (Text t) = t" "piece_value base s e (Text t) = t"
  by (simp_all add: piece_source_def piece_value_def)

lemma piece_field: "piece_source (Field n) = CHR ''{'' # n @ ''}''"
  by (simp add: piece_source_def)

lemma format_scan_pieces:
  "list_all plain_piece ps \<Longrightarrow>
   format_scan (name_kwargs base s e) (concat (map piece_source ps) @ rest) =
     prepend (concat (map (piece_value base s e) ps))
       (format_scan (name_kwargs base s e) rest)"
proof (induction ps)
  case Nil
  show ?case by (simp add: prepend_Nil)
next
  case (Cons p ps)
  then have IH: "format_scan (name_kwargs base s e) (concat (map piece_source ps) @ rest) =
     prepend (concat (map (piece_value base s e) ps))
       (format_scan (name_kwargs base s e) rest)"
    and pp: "plain_piece p" by simp_all
  show ?case
  proof (cases p)
    case (Text t)
    with pp have "CHR ''{'' \<notin> set t" "CHR ''}'' \<notin> set t" by (simp_all add: plain_piece_def)
    from format_scan_text [OF this, of "name_kwargs base s e" "concat (map piece_source ps) @ rest"]
    show ?thesis
      by (simp add: Text piece_text IH prepend_prepend)
  next
    case (Field n)
    with pp have "n \<in> set [''base'', ''page'', ''start'', ''end'']"
      by (simp add: plain_piece_def)
    from format_scan_field [OF this, of base s e "concat (map piece_source ps) @ rest"]
    show ?thesis
      by (simp add: Field piece_field IH prepend_prepend)
  qed
qed

lemma str_int_examples: "str_int 2 = ''2''" "str_int 5 = ''5''"
  by code_simp+

text \<open>
  C8, as the code has it. With a non-empty pattern made of literal text and the plain
  fields \<open>{base}\<close>, \<open>{start}\<close>, \<open>{end}\<close> and \<open>{page}\<close>, the file name is the pattern with
  \<open>{base}\<close>, \<open>{start}\<close> and \<open>{end}\<close> replaced by the base name and the decimal numbers, and
  \<open>{page}\<close> replaced by the start when \<open>start = end\<close> and by the text \<open>None\<close> otherwise.
  Without a pattern, or with the empty pattern, the name is \<open>base_pS.pdf\<close> for a
  single page \<open>S\<close> and \<open>base_pS-E.pdf\<close> for a longer range.
\<close>

theorem split_name_pattern:
  "(list_all plain_piece ps \<and> concat (map piece_source ps) \<noteq> [] \<longrightarrow>
      make_split_name base s e (Some (concat (map piece_source ps))) =
        Inr (concat (map (piece_value base s e) ps))) \<and>
   (pattern = None \<or> pattern = Some [] \<longrightarrow>
      make_split_name base s e pattern =
        Inr (if s = e then base @ ''_p'' @ str_int s @ ''.pdf''
             else base @ ''_p'' @ str_int s @ ''-'' @ str_int e @ ''.pdf''))"
proof -
  have "make_split_name base s e (Some (concat (map piece_source ps))) =
        Inr (concat (map (piece_value base s e) ps))"
    if "list_all plain_piece ps" "concat (map piece_source ps) \<noteq> []"
    using format_scan_pieces [OF that(1), of base s e "[]"] that(2)
    by (simp add: make_split_name_def prepend_def)
  moreover have "make_split_name base s e pattern =
        Inr (if s = e then base @ ''_p'' @ str_int s @ ''.pdf''
             else base @ ''_p'' @ str_int s @ ''-'' @ str_int e @ ''.pdf'')"
    if "pattern = None \<or> pattern = Some []"
    using that by (auto simp: make_split_name_def)
  ultimately show ?thesis by blast
qed

theorem split_name_pattern_witness:
  "make_split_name ''doc'' 2 5 (Some ''{base}-{start}_{end}{page}.pdf'') =
     Inr ''doc-2_5None.pdf'' \<and>
   make_split_name ''doc'' 2 5 None = Inr ''doc_p2-5.pdf''"
  using split_name_pattern [of
      "[Field ''base'', Text ''-'', Field ''start'', Text ''_'', Field ''end'', Field ''page'',
        Text ''.pdf'']"
      "''doc''" 2 5 None]
  by (simp add: plain_piece_def piece_source_def piece_value_def str_int_examples)

text \<open>
  C8, as the claim states it, fails: for the range \<open>(1, 3)\<close> the field \<open>{page}\<close> is not
  left empty, it becomes the text \<open>None\<close>.
\<close>

theorem split_name_page_is_None_text:
  "make_split_name ''doc'' 1 3 (Some ''{base}_{page}.pdf'') = Inr ''doc_None.pdf'' \<and>
   make_split_name ''doc'' 1 3 (Some ''{base}_{page}.pdf'') \<noteq> Inr ''doc_.pdf''"
  by code_simp

section \<open>Properties of split\<close>

lemma split_cmd_planned:
  assumes "fs (Path L input_file) = Some reader"
    and "\<not> (is_encrypted reader \<and> (no_password password \<or> \<not> decrypt reader password))"
    and "parse_ranges ranges_spec (int (length (pages reader))) = Inr ranges"
    and "plan_names L (if outdir \<noteq> [] then Path L outdir else Path L ''.'')
           (stem L (Path L input_file)) name_pattern ranges [] = Inr planned"
  shows "split_cmd L fs input_file ranges_spec outdir password name_pattern overwrite =
     (if filter (exists fs) planned \<noteq> [] \<and> \<not> overwrite
      then (fs, err (refusal L (filter (exists fs) planned)))
      else write_outputs fs (pages reader) (zip ranges planned))"
proof -
  have r: "require_exists L fs (Path L input_file) = Inr ()"
    using assms(1) by (simp add: require_exists_def exists_def)
  from assms(2) have e1: "(is_encrypted reader \<and> no_password password) = False"
    and e2: "(is_encrypted reader \<and> \<not> decrypt reader password) = False" by auto
  show ?thesis
    unfolding split_cmd_def Let_def
    by (simp only: r assms(1) assms(3) assms(4) e1 e2 sum.case option.case if_False)
qed

text \<open>
  C4. Let the split reach the overwrite guard: the input exists and opens, the ranges
  parse, and every name is planned. If \<^verbatim>\<open>overwrite\<close> is false and some planned path
  exists, the split fails with the refusal whose report is the list of all planned
  paths that exist, one per line and in planning order, and the file system is left
  as it was: no segment is written.
\<close>

theorem split_refuses_collisions:
  assumes "fs (Path L input_file) = Some reader"
    and "\<not> (is_encrypted reader \<and> (no_password password \<or> \<not> decrypt reader password))"
    and "parse_ranges ranges_spec (int (length (pages reader))) = Inr ranges"
    and "plan_names L (if outdir \<noteq> [] then Path L outdir else Path L ''.'')
           (stem L (Path L input_file)) name_pattern ranges [] = Inr planned"
    and "list_ex (exists fs) planned"
  shows "split_cmd L fs input_file ranges_spec outdir password name_pattern False =
     (fs, err (''Refusing to overwrite existing files:'' @ [CHR 0x0A] @
               join [CHR 0x0A] (map (path_str L) (filter (exists fs) planned)) @
               [CHR 0x0A] @ ''(use --overwrite)''))"
proof -
  from assms(5) have ne: "filter (exists fs) planned \<noteq> []"
    by (simp add: filter_empty_conv list_ex_iff)
  have "split_cmd L fs input_file ranges_spec outdir password name_pattern False =
     (if filter (exists fs) planned \<noteq> [] \<and> \<not> False
      then (fs, err (refusal L (filter (exists fs) planned)))
      else write_outputs fs (pages reader) (zip ranges planned))"
    by (rule split_cmd_planned) (rule assms)+
  with ne show ?thesis by (simp add: refusal_def)
qed

lemma second_run_opens: "after_split (Path plain_paths ''b.pdf'') = Some doc_b"
  by (simp add: after_split_def two_files_def plain_paths_def)

lemma second_run_plain:
  "\<not> (is_encrypted doc_b \<and> (no_password None \<or> \<not> decrypt doc_b None))"
  by (simp add: is_encrypted_def doc_b_def)

lemma second_run_ranges:
  "parse_ranges ''3,2,1,3'' (int (length (pages doc_b))) = Inr [(3, 3), (2, 2), (1, 1), (3, 3)]"
  by code_simp

lemma second_run_plan:
  "plan_names plain_paths (if ''out'' \<noteq> [] then Path plain_paths ''out'' else Path plain_paths ''.'')
     (stem plain_paths (Path plain_paths ''b.pdf'')) None [(3, 3), (2, 2), (1, 1), (3, 3)] [] =
   Inr [''out/b_p3.pdf'', ''out/b_p2.pdf'', ''out/b_p1.pdf'', ''out/b_p3.pdf'']"
  by code_simp

lemma second_run_clash:
  "list_ex (exists after_split)
     [''out/b_p3.pdf'', ''out/b_p2.pdf'', ''out/b_p1.pdf'', ''out/b_p3.pdf'']"
  by code_simp

lemma second_run_clashes:
  "filter (exists after_split)
     [''out/b_p3.pdf'', ''out/b_p2.pdf'', ''out/b_p1.pdf'', ''out/b_p3.pdf''] =
   [''out/b_p3.pdf'', ''out/b_p1.pdf'', ''out/b_p3.pdf'']"
  by code_simp

theorem split_refuses_collisions_witness:
  "split_cmd plain_paths after_split ''b.pdf'' ''3,2,1,3'' ''out'' None None False =
     (after_split,
      err (''Refusing to overwrite existing files:'' @ [CHR 0x0A] @ ''out/b_p3.pdf'' @
           [CHR 0x0A] @ ''out/b_p1.pdf'' @ [CHR 0x0A] @ ''out/b_p3.pdf'' @ [CHR 0x0A] @
           ''(use --overwrite)''))"
proof -
  have "split_cmd plain_paths after_split ''b.pdf'' ''3,2,1,3'' ''out'' None None False =
     (after_split,
      err (''Refusing to overwrite existing files:'' @ [CHR 0x0A] @
           join [CHR 0x0A] (map (path_str plain_paths)
             [''out/b_p3.pdf'', ''out/b_p1.pdf'', ''out/b_p3.pdf'']) @
           [CHR 0x0A] @ ''(use --overwrite)''))"
    using split_refuses_collisions [OF second_run_opens second_run_plain second_run_ranges
      second_run_plan second_run_clash]
    by (simp only: second_run_clashes)
  then show ?thesis by (simp add: plain_paths_def)
qed

lemma get_page_ok: "0 \<le> i \<Longrightarrow> i < int (length pgs) \<Longrightarrow> get_page pgs i = Inr (pgs ! nat i)"
  by (simp add: get_page_def)

lemma collect_pages_upto:
  "0 \<le> i \<Longrightarrow> j < int (length pgs) \<Longrightarrow>
   collect_pages pgs [i..j] w =
     Inr (w\<lparr>w_pages := w_pages w @ take (nat (j - i + 1)) (drop (nat i) pgs)\<rparr>)"
proof (induction i j arbitrary: w rule: upto.induct)
  case (1 i j)
  show ?case
  proof (cases "i \<le> j")
    case False
    then show ?thesis by (simp add: upto.simps [of i j])
  next
    case True
    from True 1(2) have i1: "0 \<le> i + 1" by simp
    from "1.IH" [OF True i1 "1.prems"(2), of "w\<lparr>w_pages := w_pages w @ [pgs ! nat i]\<rparr>"]
    have IH: "collect_pages pgs [i + 1..j] (w\<lparr>w_pages := w_pages w @ [pgs ! nat i]\<rparr>) =
        Inr (w\<lparr>w_pages := w_pages w @ pgs ! nat i #
             take (nat (j - i)) (drop (nat (i + 1)) pgs)\<rparr>)"
      by simp
    from True 1 have lt: "nat i < length pgs" by simp
    have n: "nat (j - i + 1) = Suc (nat (j - i))" using True by simp
    have d: "drop (nat i) pgs = pgs ! nat i # drop (nat (i + 1)) pgs"
      using lt "1.prems"(1) by (simp add: Cons_nth_drop_Suc nat_add_distrib)
    from True 1 have g: "get_page pgs i = Inr (pgs ! nat i)"
      by (intro get_page_ok) simp_all
    have "collect_pages pgs [i..j] w =
        collect_pages pgs [i + 1..j] (w\<lparr>w_pages := w_pages w @ [pgs ! nat i]\<rparr>)"
      by (simp add: upto.simps [of i j] True g add_page_def)
    also note IH
    finally show ?thesis by (simp only: n d take_Suc_Cons)
  qed
qed

lemma collect_pages_range:
  assumes "1 \<le> fst r" "snd r \<le> int (length pgs)"
  shows "collect_pages pgs [fst r - 1..snd r - 1] PdfWriter =
     Inr \<lparr>w_pages = page_slice pgs r, w_metadata = [(''/Producer'', ''pypdf'')]\<rparr>"
  using collect_pages_upto [of "fst r - 1" "snd r - 1" pgs PdfWriter] assms
  by (simp add: PdfWriter_def page_slice_def)

lemma write_outputs_step:
  assumes "1 \<le> fst (fst z)" "snd (fst z) \<le> int (length pgs)"
  shows "write_outputs fs pgs (z # zs) =
     write_outputs (fs(snd z \<mapsto> segment pgs (fst z))) pgs zs"
proof -
  obtain a b t where z: "z = ((a, b), t)" by (cases z) auto
  from collect_pages_range [of "(a, b)" pgs] assms z
  have "collect_pages pgs [a - 1..b - 1] PdfWriter =
      Inr \<lparr>w_pages = page_slice pgs (a, b), w_metadata = [(''/Producer'', ''pypdf'')]\<rparr>"
    by simp
  then show ?thesis by (simp add: z write_pdf_def segment_def)
qed

lemma write_outputs_ok: "in_bounds pgs zs \<Longrightarrow> snd (write_outputs fs pgs zs) = Inr ()"
proof (induction zs arbitrary: fs)
  case Nil
  show ?case by simp
next
  case (Cons z zs)
  then show ?case by (simp add: in_bounds_def write_outputs_step)
qed

lemma write_outputs_other:
  "in_bounds pgs zs \<Longrightarrow> p \<notin> snd ` set zs \<Longrightarrow> fst (write_outputs fs pgs zs) p = fs p"
proof (induction zs arbitrary: fs)
  case Nil
  show ?case by simp
next
  case (Cons z zs)
  then show ?case by (simp add: in_bounds_def write_outputs_step)
qed

lemma write_outputs_member:
  "in_bounds pgs zs \<Longrightarrow> p \<in> snd ` set zs \<Longrightarrow> fst (write_outputs fs pgs zs) p \<noteq> None"
proof (induction zs arbitrary: fs)
  case Nil
  then show ?case by simp
next
  case (Cons z zs)
  from Cons.prems have b: "in_bounds pgs zs" and s: "1 \<le> fst (fst z)" "snd (fst z) \<le> int (length pgs)"
    by (simp_all add: in_bounds_def)
  show ?case
  proof (cases "p \<in> snd ` set zs")
    case True
    from Cons.IH [OF b this] show ?thesis by (simp add: write_outputs_step [OF s])
  next
    case False
    with Cons.prems have "snd z = p" by auto
    with False show ?thesis
      by (simp add: write_outputs_step [OF s] write_outputs_other [OF b])
  qed
qed

lemma write_outputs_last:
  "in_bounds pgs zs \<Longrightarrow> k < length zs \<Longrightarrow>
   \<forall>m. k < m \<and> m < length zs \<longrightarrow> snd (zs ! m) \<noteq> snd (zs ! k) \<Longrightarrow>
   fst (write_outputs fs pgs zs) (snd (zs ! k)) = Some (segment pgs (fst (zs ! k)))"
proof (induction zs arbitrary: fs k)
  case Nil
  then show ?case by simp
next
  case (Cons z zs)
  from Cons.prems have b: "in_bounds pgs zs" and s: "1 \<le> fst (fst z)" "snd (fst z) \<le> int (length pgs)"
    by (simp_all add: in_bounds_def)
  show ?case
  proof (cases k)
    case 0
    have "snd z \<notin> snd ` set zs"
    proof
      assume "snd z \<in> snd ` set zs"
      then obtain m where "m < length zs" "snd (zs ! m) = snd z"
        by (auto simp: in_set_conv_nth)
      with Cons.prems(3) [rule_format, of "Suc m"] 0 show False by simp
    qed
    then show ?thesis
      by (simp add: 0 write_outputs_step [OF s] write_outputs_other [OF b])
  next
    case (Suc k')
    with Cons.prems have k': "k' < length zs" by simp
    have "\<forall>m. k' < m \<and> m < length zs \<longrightarrow> snd (zs ! m) \<noteq> snd (zs ! k')"
    proof (intro allI impI)
      fix m assume "k' < m \<and> m < length zs"
      with Cons.prems(3) [rule_format, of "Suc m"] Suc show "snd (zs ! m) \<noteq> snd (zs ! k')"
        by simp
    qed
    from Cons.IH [OF b k' this] show ?thesis by (simp add: Suc write_outputs_step [OF s])
  qed
qed

lemma last_occurrence:
  "j < length (xs :: 'b list) \<Longrightarrow>
   \<exists>k. j \<le> k \<and> k < length xs \<and> xs ! k = xs ! j \<and> (\<forall>m. k < m \<and> m < length xs \<longrightarrow> xs ! m \<noteq> xs ! j)"
proof (induction "length xs - j" arbitrary: j rule: less_induct)
  case less
  show ?case
  proof (cases "\<exists>m. j < m \<and> m < length xs \<and> xs ! m = xs ! j")
    case False
    with less.prems show ?thesis by (intro exI [of _ j]) auto
  next
    case True
    then obtain m where m: "j < m" "m < length xs" "xs ! m = xs ! j" by blast
    then have "length xs - m < length xs - j" by simp
    from less.hyps [OF this m(2)] obtain k where "m \<le> k" "k < length xs" "xs ! k = xs ! m"
      "\<forall>n. k < n \<and> n < length xs \<longrightarrow> xs ! n \<noteq> xs ! m" by blast
    with m show ?thesis by (intro exI [of _ k]) auto
  qed
qed

lemma plan_names_Inr:
  "plan_names L d base pat ranges acc = Inr planned \<Longrightarrow>
   \<exists>names. planned = acc @ map (joinpath L d) names \<and>
     map Inr names = map (\<lambda>r. make_split_name base (fst r) (snd r) pat) ranges"
proof (induction ranges arbitrary: acc)
  case Nil
  then show ?case by simp
next
  case (Cons r ranges)
  obtain a b where r: "r = (a, b)" by (cases r)
  from Cons.prems r obtain name where n: "make_split_name base a b pat = Inr name"
    and rest: "plan_names L d base pat ranges (acc @ [joinpath L d name]) = Inr planned"
    by (auto split: sum.splits)
  from Cons.IH [OF rest] obtain names where "planned = (acc @ [joinpath L d name]) @ map (joinpath L d) names"
    and "map Inr names = map (\<lambda>r. make_split_name base (fst r) (snd r) pat) ranges" by blast
  with n r have "planned = acc @ map (joinpath L d) (name # names) \<and>
     map Inr (name # names) = map (\<lambda>r. make_split_name base (fst r) (snd r) pat) (r # ranges)"
    by simp
  then show ?case by blast
qed

lemma plan_names_same:
  assumes "plan_names L d base pat ranges [] = Inr planned"
  shows "length planned = length ranges \<and>
    (\<forall>i j. i < length ranges \<and> j < length ranges \<and> ranges ! i = ranges ! j \<longrightarrow>
       planned ! i = planned ! j)"
proof -
  from plan_names_Inr [OF assms] obtain names where p: "planned = map (joinpath L d) names"
    and m: "map Inr names = map (\<lambda>r. make_split_name base (fst r) (snd r) pat) ranges"
    by auto
  from arg_cong [OF m, of length] have len: "length names = length ranges" by simp
  have nm: "make_split_name base (fst (ranges ! i)) (snd (ranges ! i)) pat = Inr (names ! i)"
    if "i < length ranges" for i
  proof -
    from m have "map Inr names ! i =
        map (\<lambda>r. make_split_name base (fst r) (snd r) pat) ranges ! i" by simp
    with that len show ?thesis by simp
  qed
  have "planned ! i = planned ! j"
    if "i < length ranges" "j < length ranges" "ranges ! i = ranges ! j" for i j
  proof -
    from nm [OF that(1)] nm [OF that(2)] that(3) have "names ! i = names ! j" by simp
    with that len p show ?thesis by simp
  qed
  with p len show ?thesis by simp
qed


lemma parse_ranges_in_bounds:
  assumes "parse_ranges spec (int (length pgs)) = Inr ranges"
    and "length planned = length ranges"
  shows "in_bounds pgs (zip ranges planned)"
proof -
  from parse_loop_Inr [OF parse_ranges_Inr [OF assms(1)]]
  have m: "map Inr ranges = map (\<lambda>t. parse_token t (int (length pgs))) (tokens_of spec)"
    by simp
  have "1 \<le> fst r \<and> snd r \<le> int (length pgs)" if "r \<in> set ranges" for r
  proof -
    from that have "Inr r \<in> set (map (\<lambda>t. parse_token t (int (length pgs))) (tokens_of spec))"
      unfolding m [symmetric] by force
    then obtain t where "parse_token t (int (length pgs)) = Inr (fst r, snd r)" by auto
    from parse_token_range [OF this] show ?thesis by simp
  qed
  then show ?thesis
    by (auto simp: in_bounds_def list_all_iff dest: set_zip_leftD)
qed

lemma in_bounds_take: "in_bounds pgs zs \<Longrightarrow> in_bounds pgs (take n zs)"
  by (auto simp: in_bounds_def list_all_iff dest: in_set_takeD)

text \<open>
  C10. Let the split reach the overwrite guard with no planned path on disk, and let
  the parsed ranges hold the same range at two positions \<open>i < j\<close>. Then the two planned
  paths are equal, no collision is reported and the split succeeds. The writes go to
  that path one after the other: after the first \<open>i + 1\<close> writes the path holds the
  segment of position \<open>i\<close>, and at the end it holds the segment of the last position
  \<open>k \<ge> j\<close> planned for that path. The files changed by the run are the planned paths,
  which are fewer than the segments.
\<close>

theorem duplicate_ranges_overwrite:
  assumes "fs (Path L input_file) = Some reader"
    and "\<not> (is_encrypted reader \<and> (no_password password \<or> \<not> decrypt reader password))"
    and "parse_ranges ranges_spec (int (length (pages reader))) = Inr ranges"
    and "plan_names L (if outdir \<noteq> [] then Path L outdir else Path L ''.'')
           (stem L (Path L input_file)) name_pattern ranges [] = Inr planned"
    and "\<not> list_ex (exists fs) planned"
    and "i < j" and "j < length ranges" and "ranges ! i = ranges ! j"
  shows "planned ! i = planned ! j \<and>
     snd (split_cmd L fs input_file ranges_spec outdir password name_pattern False) = Inr () \<and>
     fst (write_outputs fs (pages reader) (take (Suc i) (zip ranges planned))) (planned ! i) =
       Some (segment (pages reader) (ranges ! i)) \<and>
     (\<exists>k. j \<le> k \<and> k < length ranges \<and> planned ! k = planned ! i \<and>
        fst (split_cmd L fs input_file ranges_spec outdir password name_pattern False)
          (planned ! i) = Some (segment (pages reader) (ranges ! k))) \<and>
     {p. fst (split_cmd L fs input_file ranges_spec outdir password name_pattern False) p \<noteq> fs p} =
       set planned \<and>
     card (set planned) < length ranges"
proof -
  let ?zs = "zip ranges planned"
  let ?pgs = "pages reader"
  note plan = plan_names_same [OF assms(4)]
  note len = plan [THEN conjunct1]
  from assms(6,7) have i: "i < length ranges" by simp
  from plan [THEN conjunct2, rule_format, of i j] i assms(7,8)
  have eq: "planned ! i = planned ! j" by simp
  from assms(5) have none: "filter (exists fs) planned = []"
    by (simp add: filter_empty_conv list_ex_iff)
  have "split_cmd L fs input_file ranges_spec outdir password name_pattern False =
     (if filter (exists fs) planned \<noteq> [] \<and> \<not> False
      then (fs, err (refusal L (filter (exists fs) planned)))
      else write_outputs fs ?pgs ?zs)"
    by (rule split_cmd_planned) (rule assms)+
  with none have run: "split_cmd L fs input_file ranges_spec outdir password name_pattern False =
      write_outputs fs ?pgs ?zs" by simp
  from parse_ranges_in_bounds [OF assms(3) len] have b: "in_bounds ?pgs ?zs" .
  have lz: "length ?zs = length ranges" using len by simp
  have nth: "?zs ! m = (ranges ! m, planned ! m)" if "m < length ranges" for m
    using that len by simp
  have "map snd ?zs = planned" using len by (simp add: map_snd_zip)
  from arg_cong [OF this, of set] have targets: "snd ` set ?zs = set planned" by simp
  have ok: "snd (write_outputs fs ?pgs ?zs) = Inr ()"
    by (rule write_outputs_ok [OF b])
  have first: "fst (write_outputs fs ?pgs (take (Suc i) ?zs)) (planned ! i) =
      Some (segment ?pgs (ranges ! i))"
  proof -
    have l: "i < length (take (Suc i) ?zs)" using i lz by simp
    have n: "take (Suc i) ?zs ! i = (ranges ! i, planned ! i)" using i nth by simp
    have "\<forall>m. i < m \<and> m < length (take (Suc i) ?zs) \<longrightarrow>
        snd (take (Suc i) ?zs ! m) \<noteq> snd (take (Suc i) ?zs ! i)"
    proof (intro allI impI)
      fix m assume "i < m \<and> m < length (take (Suc i) ?zs)"
      then have "i < m" "m < Suc i" by simp_all
      then have False by arith
      then show "snd (take (Suc i) ?zs ! m) \<noteq> snd (take (Suc i) ?zs ! i)" ..
    qed
    from write_outputs_last [OF in_bounds_take [OF b] l this, of fs] n show ?thesis by simp
  qed
  from last_occurrence [of j planned] assms(7) len obtain k where k: "j \<le> k" "k < length planned"
    "planned ! k = planned ! j"
    and later: "\<forall>m. k < m \<and> m < length planned \<longrightarrow> planned ! m \<noteq> planned ! j" by auto
  have final: "fst (write_outputs fs ?pgs ?zs) (planned ! i) = Some (segment ?pgs (ranges ! k))"
  proof -
    have l: "k < length ?zs" using k lz len by simp
    have "\<forall>m. k < m \<and> m < length ?zs \<longrightarrow> snd (?zs ! m) \<noteq> snd (?zs ! k)"
      using later k len by simp
    from write_outputs_last [OF b l this, of fs] k len eq show ?thesis by simp
  qed
  have changed: "{p. fst (write_outputs fs ?pgs ?zs) p \<noteq> fs p} = set planned"
  proof (intro set_eqI iffI)
    fix p assume "p \<in> {p. fst (write_outputs fs ?pgs ?zs) p \<noteq> fs p}"
    then show "p \<in> set planned"
      using write_outputs_other [OF b, of p fs] targets by auto
  next
    fix p assume p: "p \<in> set planned"
    with none have "fs p = None" by (auto simp: filter_empty_conv exists_def)
    moreover from p targets have "fst (write_outputs fs ?pgs ?zs) p \<noteq> None"
      by (intro write_outputs_member [OF b]) simp
    ultimately show "p \<in> {p. fst (write_outputs fs ?pgs ?zs) p \<noteq> fs p}" by simp
  qed
  have "\<not> distinct planned"
  proof
    assume "distinct planned"
    with i assms(6,7) len have "planned ! i \<noteq> planned ! j"
      by (simp add: nth_eq_iff_index_eq)
    with eq show False by simp
  qed
  then have "card (set planned) \<noteq> length planned" using card_distinct by blast
  with card_length [of planned] len have fewer: "card (set planned) < length ranges" by simp
  have ex: "\<exists>k. j \<le> k \<and> k < length ranges \<and> planned ! k = planned ! i \<and>
      fst (write_outputs fs ?pgs ?zs) (planned ! i) = Some (segment ?pgs (ranges ! k))"
    using k len eq final by (intro exI [of _ k]) simp
  show ?thesis
    unfolding run using eq ok first ex changed fewer by (intro conjI) assumption+
qed

lemma dup_run_opens: "two_files (Path plain_paths ''a.pdf'') = Some doc_a"
  by (simp add: two_files_def plain_paths_def)

lemma dup_run_plain:
  "\<not> (is_encrypted doc_a \<and> (no_password None \<or> \<not> decrypt doc_a None))"
  by (simp add: is_encrypted_def doc_a_def)

lemma dup_run_ranges:
  "parse_ranges ''2,2'' (int (length (pages doc_a))) = Inr [(2, 2), (2, 2)]"
  by code_simp

lemma dup_run_plan:
  "plan_names plain_paths (if ''out'' \<noteq> [] then Path plain_paths ''out'' else Path plain_paths ''.'')
     (stem plain_paths (Path plain_paths ''a.pdf'')) None [(2, 2), (2, 2)] [] =
   Inr [''out/a_p2.pdf'', ''out/a_p2.pdf'']"
  by code_simp

lemma dup_run_free: "\<not> list_ex (exists two_files) [''out/a_p2.pdf'', ''out/a_p2.pdf'']"
  by code_simp

theorem duplicate_ranges_overwrite_witness:
  "snd (split_cmd plain_paths two_files ''a.pdf'' ''2,2'' ''out'' None None False) = Inr () \<and>
   fst (split_cmd plain_paths two_files ''a.pdf'' ''2,2'' ''out'' None None False)
     ''out/a_p2.pdf'' = Some (segment [''A1'', ''A2''] (2, 2)) \<and>
   card (set [''out/a_p2.pdf'', ''out/a_p2.pdf'']) < length [(2 :: int, 2 :: int), (2, 2)]"
proof -
  let ?run = "split_cmd plain_paths two_files ''a.pdf'' ''2,2'' ''out'' None None False"
  have p: "(0 :: nat) < 1" "1 < length [(2 :: int, 2 :: int), (2, 2)]"
    "[(2 :: int, 2 :: int), (2, 2)] ! 0 = [(2, 2), (2, 2)] ! 1" by simp_all
  note t = duplicate_ranges_overwrite [OF dup_run_opens dup_run_plain dup_run_ranges
      dup_run_plan dup_run_free p]
  note ok = t [THEN conjunct2, THEN conjunct1]
  note last = t [THEN conjunct2, THEN conjunct2, THEN conjunct2, THEN conjunct1]
  note fewer = t [THEN conjunct2, THEN conjunct2, THEN conjunct2, THEN conjunct2, THEN conjunct2]
  from last obtain k where k: "1 \<le> k" "k < length [(2 :: int, 2 :: int), (2, 2)]"
    and f: "fst ?run ([''out/a_p2.pdf'', ''out/a_p2.pdf''] ! 0) =
      Some (segment (pages doc_a) ([(2, 2), (2, 2)] ! k))" by blast
  from k have "k = 1" by simp
  with f have "fst ?run ''out/a_p2.pdf'' = Some (segment [''A1'', ''A2''] (2, 2))"
    by (simp add: doc_a_def)
  with ok fewer show ?thesis by simp
qed

end
